theory Spec2Isabelle
  imports Main "HOL-Library.Char_ord" "HOL-Library.List_Lexorder" "HOL-Library.Multiset"
begin

section \<open>Characters and strings of the script\<close>

text \<open>
  The script \<^verbatim>\<open>mammal_scientific-name.py\<close> reads the NCBI taxonomy dump (\<^verbatim>\<open>nodes.dmp\<close>,
  \<^verbatim>\<open>names.dmp\<close>), collects the descendants of Mammalia, keeps those of rank species and
  writes the names that \<^verbatim>\<open>is_valid_species_name\<close> accepts. Each function of the script is a
  function here, under its name; a raised exception is the \<open>Inl\<close> of a sum, a dictionary is
  a map, a file is the list of its lines.

  A Python \<^verbatim>\<open>str\<close> is modelled as a \<^typ>\<open>string\<close>, each \<^typ>\<open>char\<close> standing for the code
  point of the same number (U+0000 to U+00FF); code points above U+00FF are outside the
  model. The character classes below are CPython's for that range.
\<close>

datatype py_error = ValueError | IndexError

text \<open>\<open>in_codes rs c\<close>: the code point of \<open>c\<close> lies in one of the ranges \<open>rs\<close> (bounds
  included).\<close>

fun in_ranges :: "(nat \<times> nat) list \<Rightarrow> nat \<Rightarrow> bool" where
  "in_ranges [] n = False"
| "in_ranges ((lo, hi) # rs) n = (if lo \<le> n \<and> n \<le> hi then True else in_ranges rs n)"

definition in_codes :: "(nat \<times> nat) list \<Rightarrow> char \<Rightarrow> bool" where
  "in_codes rs c = in_ranges rs (of_char c)"

text \<open>\<^verbatim>\<open>str.isspace\<close> of one character: what \<^verbatim>\<open>str.split()\<close> and \<^verbatim>\<open>str.strip()\<close> treat as
  whitespace (TAB to CR, FS to US, SPACE, NEL, NBSP).\<close>

definition isspace :: "char \<Rightarrow> bool" where
  "isspace c = in_codes [(9, 13), (28, 32), (133, 133), (160, 160)] c"

text \<open>\<^verbatim>\<open>str.isupper\<close> and \<^verbatim>\<open>str.islower\<close> of one character.\<close>

definition isupper :: "char \<Rightarrow> bool" where
  "isupper c = in_codes [(65, 90), (192, 214), (216, 222)] c"

definition islower :: "char \<Rightarrow> bool" where
  "islower c = in_codes [(97, 122), (170, 170), (181, 181), (186, 186), (223, 246), (248, 255)] c"

text \<open>\<^verbatim>\<open>str.lower\<close>, character by character: the upper-case letters move up by 32.\<close>

definition lower_char :: "char \<Rightarrow> char" where
  "lower_char c = (if isupper c then char_of (of_char c + (32::nat)) else c)"

definition lower :: "string \<Rightarrow> string" where
  "lower s = map lower_char s"

text \<open>The classes of the \<^verbatim>\<open>re\<close> module on \<^verbatim>\<open>str\<close> patterns: \<^verbatim>\<open>\d\<close> is a decimal digit,
  \<^verbatim>\<open>\w\<close> an alphanumeric character or the underscore.\<close>

definition isdecimal :: "char \<Rightarrow> bool" where
  "isdecimal c = in_codes [(48, 57)] c"

definition isword :: "char \<Rightarrow> bool" where
  "isword c = in_codes [(48, 57), (65, 90), (95, 95), (97, 122), (170, 170), (178, 179),
     (181, 181), (185, 186), (188, 190), (192, 214), (216, 246), (248, 255)] c"

text \<open>\<^verbatim>\<open>s.strip()\<close>: whitespace removed at both ends.\<close>

definition strip :: "string \<Rightarrow> string" where
  "strip s = rev (dropWhile isspace (rev (dropWhile isspace s)))"

text \<open>\<^verbatim>\<open>s.rstrip(chars)\<close>: the characters of \<open>chars\<close> removed at the right end.\<close>

definition rstrip_chars :: "string \<Rightarrow> string \<Rightarrow> string" where
  "rstrip_chars chars s = rev (dropWhile (\<lambda>c. c \<in> set chars) (rev s))"

text \<open>\<^verbatim>\<open>s.split()\<close>: the maximal runs of non-whitespace characters, left to right. The
  scan keeps the current word reversed in \<open>acc\<close>.\<close>

fun split_ws :: "string \<Rightarrow> string \<Rightarrow> string list" where
  "split_ws acc [] = (if acc = [] then [] else [rev acc])"
| "split_ws acc (c # cs) =
     (if isspace c then (if acc = [] then split_ws [] cs else rev acc # split_ws [] cs)
      else split_ws (c # acc) cs)"

definition py_split :: "string \<Rightarrow> string list" where
  "py_split s = split_ws [] s"

section \<open>Regular expressions of the validator\<close>

text \<open>
  The constructs the seventeen patterns of \<^verbatim>\<open>exclude_patterns\<close> use: literal text, a
  character set, a range, \<^verbatim>\<open>\d\<close>, \<^verbatim>\<open>\b\<close>, concatenation, alternation, \<^verbatim>\<open>{n}\<close> and
  \<^verbatim>\<open>{n,}\<close> (\<^verbatim>\<open>+\<close> is \<^verbatim>\<open>{1,}\<close>).
\<close>

datatype re =
    Lit string
  | OneOf string
  | Range char char
  | Digit
  | WordB
  | Cat re re
  | Alt re re
  | Rep nat re
  | RepMin nat re

text \<open>A position of the matcher in the subject: the character before it (if any) and the
  rest of the subject from it.\<close>

type_synonym pos = "char option \<times> string"

text \<open>The script calls \<^verbatim>\<open>re.search\<close> without flags: a literal character matches itself only,
  and a range \<^verbatim>\<open>[lo-hi]\<close> the characters from \<open>lo\<close> to \<open>hi\<close>.\<close>

definition in_range :: "char \<Rightarrow> char \<Rightarrow> char \<Rightarrow> bool" where
  "in_range lo hi c = in_codes [(of_char lo, of_char hi)] c"

fun step_char :: "(char \<Rightarrow> bool) \<Rightarrow> pos \<Rightarrow> pos list" where
  "step_char P (p, []) = []"
| "step_char P (p, c # cs) = (if P c then [(Some c, cs)] else [])"

fun step_lit :: "string \<Rightarrow> pos \<Rightarrow> pos list" where
  "step_lit [] st = [st]"
| "step_lit (a # as) (p, []) = []"
| "step_lit (a # as) (p, c # cs) = (if a = c then step_lit as (Some c, cs) else [])"

definition word_before :: "pos \<Rightarrow> bool" where
  "word_before st = (case fst st of None \<Rightarrow> False | Some c \<Rightarrow> isword c)"

definition word_after :: "pos \<Rightarrow> bool" where
  "word_after st = (case snd st of [] \<Rightarrow> False | c # _ \<Rightarrow> isword c)"

text \<open>\<open>matches r st\<close>: the positions at which a match of \<open>r\<close> that starts at \<open>st\<close> can
  end. A further round of \<^verbatim>\<open>{n,}\<close> is taken only when the round before it consumed input.\<close>

function matches :: "re \<Rightarrow> pos \<Rightarrow> pos list" where
  "matches (Lit w) st = step_lit w st"
| "matches (OneOf cs) st = step_char (\<lambda>c. c \<in> set cs) st"
| "matches (Range lo hi) st = step_char (in_range lo hi) st"
| "matches Digit st = step_char isdecimal st"
| "matches WordB st = (if word_before st \<noteq> word_after st then [st] else [])"
| "matches (Cat r1 r2) st = concat (map (matches r2) (matches r1 st))"
| "matches (Alt r1 r2) st = matches r1 st @ matches r2 st"
| "matches (Rep 0 r) st = [st]"
| "matches (Rep (Suc n) r) st = concat (map (matches (Rep n r)) (matches r st))"
| "matches (RepMin (Suc n) r) st = concat (map (matches (RepMin n r)) (matches r st))"
| "matches (RepMin 0 r) st =
     st # concat (map (\<lambda>st'. if length (snd st') < length (snd st)
                                then matches (RepMin 0 r) st' else [])
                   (matches r st))"
  by pat_completeness auto
termination
  by (relation "measures [\<lambda>(r, st). size r,
                          \<lambda>(r, st). (case r of Rep n _ \<Rightarrow> n | RepMin n _ \<Rightarrow> n | _ \<Rightarrow> 0),
                          \<lambda>(r, st). length (snd st)]") auto

text \<open>\<^verbatim>\<open>re.search\<close>: a match may start at any position of the subject, the end included.\<close>

fun search_from :: "re \<Rightarrow> char option \<Rightarrow> string \<Rightarrow> bool" where
  "search_from r p [] = (matches r (p, []) \<noteq> [])"
| "search_from r p (c # cs) = (matches r (p, c # cs) \<noteq> [] \<or> search_from r (Some c) cs)"

definition re_search :: "re \<Rightarrow> string \<Rightarrow> bool" where
  "re_search r s = search_from r None s"

section \<open>The name validator\<close>

definition word :: "string \<Rightarrow> re" where
  "word w = Cat WordB (Cat (Lit w) WordB)"

definition code_hyphen_year :: re where
  "code_hyphen_year = Cat (RepMin 2 (Range CHR ''A'' CHR ''Z'')) (Cat (Lit ''-'') (Rep 4 Digit))"

definition code_catalog :: re where
  "code_catalog = Cat (RepMin 3 (Range CHR ''A'' CHR ''Z'')) (RepMin 1 Digit)"

text \<open>\<^verbatim>\<open>exclude_patterns\<close>, in the order of the source.\<close>

definition exclude_patterns :: "re list" where
  "exclude_patterns =
    [Cat WordB (Lit ''sp.''),
     Cat WordB (Lit ''cf.''),
     Cat WordB (Lit ''aff.''),
     word ''x'',
     word ''isolate'',
     word ''haplotype'',
     Cat WordB (Lit ''gen.''),
     word ''gen'',
     word ''environmental'',
     word ''mixed'',
     Cat WordB (Lit ''indet.''),
     Lit ''bold:'',
     OneOf ''()'',
     Rep 4 Digit,
     code_hyphen_year,
     code_catalog,
     Cat WordB (Cat (Alt (Lit ''complex'') (Lit ''group'')) WordB)]"

text \<open>The loop over the patterns: the first pattern found in the subject ends it.\<close>

fun any_pattern :: "re list \<Rightarrow> string \<Rightarrow> bool" where
  "any_pattern [] s = False"
| "any_pattern (pattern # ps) s = (if re_search pattern s then True else any_pattern ps s)"

text \<open>\<^verbatim>\<open>word[0]\<close> raises \<^verbatim>\<open>IndexError\<close> on an empty word.\<close>

fun first_char :: "string \<Rightarrow> py_error + char" where
  "first_char [] = Inl IndexError"
| "first_char (c # cs) = Inr c"

fun rest_lower :: "string list \<Rightarrow> py_error + bool" where
  "rest_lower [] = Inr True"
| "rest_lower (w # ws) =
     (case first_char w of
        Inl e \<Rightarrow> Inl e
      | Inr c \<Rightarrow> if \<not> islower c then Inr False else rest_lower ws)"

text \<open>The validator with the pattern list as a parameter.\<close>

definition valid_with :: "re list \<Rightarrow> string \<Rightarrow> py_error + bool" where
  "valid_with patterns name =
     (let name_lower = lower name in
      if any_pattern patterns name_lower then Inr False
      else
        let words = py_split name in
        if length words < 2 \<or> length words > 3 then Inr False
        else
          (case first_char (words ! 0) of
             Inl e \<Rightarrow> Inl e
           | Inr c \<Rightarrow> if \<not> isupper c then Inr False else rest_lower (drop 1 words)))"

definition is_valid_species_name :: "string \<Rightarrow> py_error + bool" where
  "is_valid_species_name name = valid_with exclude_patterns name"

section \<open>The validator as the specification words it\<close>




text \<open>The patterns other than the two upper-case code patterns.\<close>

definition text_patterns :: "re list" where
  "text_patterns = filter (\<lambda>p. p \<noteq> code_hyphen_year \<and> p \<noteq> code_catalog) exclude_patterns"

section \<open>The descendant traversal\<close>

text \<open>\<^verbatim>\<open>children_dict\<close> maps a parent identifier to the list of its children. The inner
  \<^verbatim>\<open>for\<close> loop of \<^verbatim>\<open>get_all_descendants\<close> adds each child not yet in \<^verbatim>\<open>descendants\<close> to the
  set and to the end of the queue.\<close>

type_synonym children_dict = "int \<rightharpoonup> int list"

fun visit_children :: "int list \<Rightarrow> int set \<times> int list \<Rightarrow> int set \<times> int list" where
  "visit_children [] (descendants, queue) = (descendants, queue)"
| "visit_children (child # cs) (descendants, queue) =
     (if child \<notin> descendants
      then visit_children cs (insert child descendants, queue @ [child])
      else visit_children cs (descendants, queue))"

text \<open>The \<^verbatim>\<open>while queue:\<close> loop. It need not end on a mapping with infinitely many keys,
  so not returning is the value \<open>None\<close>.\<close>

partial_function (option) bfs_loop :: "children_dict \<Rightarrow> int set \<Rightarrow> int list \<Rightarrow> int set option" where
  "bfs_loop children_dict descendants queue =
     (case queue of
        [] \<Rightarrow> Some descendants
      | current # rest \<Rightarrow>
          (case children_dict current of
             None \<Rightarrow> bfs_loop children_dict descendants rest
           | Some cs \<Rightarrow>
               (case visit_children cs (descendants, rest) of
                  (descendants', queue') \<Rightarrow> bfs_loop children_dict descendants' queue')))"

definition get_all_descendants :: "int \<Rightarrow> children_dict \<Rightarrow> int set option" where
  "get_all_descendants tax_id children_dict = bfs_loop children_dict {} [tax_id]"

text \<open>The same loop with a history variable \<open>enq\<close>: every identifier put on the queue, in
  order, the initial one included. What an iteration appended is the new queue beyond the
  old rest.\<close>

partial_function (option) bfs_trace ::
  "children_dict \<Rightarrow> int set \<Rightarrow> int list \<Rightarrow> int list \<Rightarrow> (int set \<times> int list) option" where
  "bfs_trace children_dict descendants queue enq =
     (case queue of
        [] \<Rightarrow> Some (descendants, enq)
      | current # rest \<Rightarrow>
          (case children_dict current of
             None \<Rightarrow> bfs_trace children_dict descendants rest enq
           | Some cs \<Rightarrow>
               (case visit_children cs (descendants, rest) of
                  (descendants', queue') \<Rightarrow>
                    bfs_trace children_dict descendants' queue' (enq @ drop (length rest) queue'))))"

definition enqueued :: "int \<Rightarrow> children_dict \<Rightarrow> int list option" where
  "enqueued tax_id children_dict = map_option snd (bfs_trace children_dict {} [tax_id] [tax_id])"

text \<open>A parent link: \<open>(p, c)\<close> is in \<open>edges\<close> when \<open>c\<close> is listed as a child of \<open>p\<close>. The
  loop invariant \<open>bfs_inv\<close> for root \<open>r\<close>: every collected identifier is a proper
  descendant of \<open>r\<close>, the queue holds only \<open>r\<close> and collected identifiers, the children of
  every identifier already taken off the queue are collected, and the history is \<open>r\<close>
  followed by the collected identifiers, each once.\<close>

definition edges :: "children_dict \<Rightarrow> (int \<times> int) set" where
  "edges children_dict = {(p, c). \<exists>cs. children_dict p = Some cs \<and> c \<in> set cs}"

definition bfs_inv :: "children_dict \<Rightarrow> int \<Rightarrow> int set \<Rightarrow> int list \<Rightarrow> int list \<Rightarrow> bool" where
  "bfs_inv cd r d q enq =
     (d \<subseteq> (edges cd)\<^sup>+ `` {r} \<and> set q \<subseteq> insert r d \<and>
      (\<forall>x \<in> insert r d - set q. edges cd `` {x} \<subseteq> d) \<and>
      (\<exists>log. enq = r # log \<and> distinct log \<and> set log = d))"

section \<open>The loaders\<close>

text \<open>\<^verbatim>\<open>s.split(sep)\<close> for a separator \<open>sep\<close> that is not empty: the pieces of \<open>s\<close> between
  the occurrences of \<open>sep\<close>, found from the left without overlap. The scan keeps the current
  piece reversed in \<open>acc\<close>.\<close>

function split_on :: "string \<Rightarrow> string \<Rightarrow> string \<Rightarrow> string list" where
  "split_on sep acc [] = [rev acc]"
| "split_on sep acc (c # cs) =
     (if sep \<noteq> [] \<and> take (length sep) (c # cs) = sep
      then rev acc # split_on sep [] (drop (length sep) (c # cs))
      else split_on sep (c # acc) cs)"
  by pat_completeness auto
termination
  by (relation "measure (\<lambda>(sep, acc, s). length s)") auto

definition split_sep :: "string \<Rightarrow> string \<Rightarrow> string list" where
  "split_sep sep s = split_on sep [] s"

text \<open>The field separator \<^verbatim>\<open>'\t|\t'\<close> of the dump files.\<close>

definition field_sep :: string where
  "field_sep = [CHR 0x09, CHR ''|'', CHR 0x09]"

text \<open>\<^verbatim>\<open>int(s)\<close> on text without surrounding whitespace (both loaders pass
  \<^verbatim>\<open>parts[i].strip()\<close>): an optional sign, then decimal digits, single underscores allowed
  between digits; anything else is a \<^verbatim>\<open>ValueError\<close>. The interpreter's limit on the number of
  digits is not modelled. \<open>parse_digits acc prev s\<close> reads the digits; \<open>prev\<close> tells
  whether the character before was a digit.\<close>

fun parse_digits :: "nat \<Rightarrow> bool \<Rightarrow> string \<Rightarrow> nat option" where
  "parse_digits acc prev [] = (if prev then Some acc else None)"
| "parse_digits acc prev (c # cs) =
     (if isdecimal c then parse_digits (10 * acc + (of_char c - 48)) True cs
      else if c = CHR ''_'' \<and> prev then parse_digits acc False cs
      else None)"

definition py_int :: "string \<Rightarrow> py_error + int" where
  "py_int s =
     (case s of
        [] \<Rightarrow> Inl ValueError
      | c # cs \<Rightarrow>
          if c = CHR ''-'' then
            (case parse_digits 0 False cs of None \<Rightarrow> Inl ValueError | Some n \<Rightarrow> Inr (- int n))
          else if c = CHR ''+'' then
            (case parse_digits 0 False cs of None \<Rightarrow> Inl ValueError | Some n \<Rightarrow> Inr (int n))
          else
            (case parse_digits 0 False (c # cs) of None \<Rightarrow> Inl ValueError | Some n \<Rightarrow> Inr (int n)))"

text \<open>\<^verbatim>\<open>parts[i]\<close> raises \<^verbatim>\<open>IndexError\<close> when the line has too few fields.\<close>

definition field :: "string list \<Rightarrow> nat \<Rightarrow> py_error + string" where
  "field parts i = (if i < length parts then Inr (parts ! i) else Inl IndexError)"

text \<open>One line of \<^verbatim>\<open>nodes.dmp\<close>, as the body of the loop of \<^verbatim>\<open>load_nodes\<close> reads it.\<close>

definition parse_node :: "string \<Rightarrow> py_error + (int \<times> int \<times> string)" where
  "parse_node line =
     (let parts = split_sep field_sep (strip line) in
      case field parts 0 of Inl e \<Rightarrow> Inl e | Inr f0 \<Rightarrow>
      case py_int (strip f0) of Inl e \<Rightarrow> Inl e | Inr tax_id \<Rightarrow>
      case field parts 1 of Inl e \<Rightarrow> Inl e | Inr f1 \<Rightarrow>
      case py_int (strip f1) of Inl e \<Rightarrow> Inl e | Inr parent_tax_id \<Rightarrow>
      case field parts 2 of Inl e \<Rightarrow> Inl e | Inr f2 \<Rightarrow>
      Inr (tax_id, parent_tax_id, strip f2))"

text \<open>The three dictionaries of \<^verbatim>\<open>load_nodes\<close>: \<^verbatim>\<open>parent_dict\<close>, \<^verbatim>\<open>rank_dict\<close> and
  \<^verbatim>\<open>children_dict\<close> (a \<^verbatim>\<open>defaultdict(list)\<close>: a missing key reads as the empty list).\<close>

type_synonym nodes = "(int \<rightharpoonup> int) \<times> (int \<rightharpoonup> string) \<times> children_dict"

definition children_of :: "children_dict \<Rightarrow> int \<Rightarrow> int list" where
  "children_of children_dict p = (case children_dict p of None \<Rightarrow> [] | Some cs \<Rightarrow> cs)"

fun load_nodes_loop :: "string list \<Rightarrow> nodes \<Rightarrow> py_error + nodes" where
  "load_nodes_loop [] dicts = Inr dicts"
| "load_nodes_loop (line # lines) (parent_dict, rank_dict, children_dict) =
     (case parse_node line of
        Inl e \<Rightarrow> Inl e
      | Inr (tax_id, parent_tax_id, rank) \<Rightarrow>
          load_nodes_loop lines
            (parent_dict(tax_id \<mapsto> parent_tax_id),
             rank_dict(tax_id \<mapsto> rank),
             children_dict(parent_tax_id \<mapsto> children_of children_dict parent_tax_id @ [tax_id])))"

text \<open>\<^verbatim>\<open>load_nodes\<close> on the lines of the file, in file order.\<close>

definition load_nodes :: "string list \<Rightarrow> py_error + nodes" where
  "load_nodes lines = load_nodes_loop lines (Map.empty, Map.empty, Map.empty)"

text \<open>One line of \<^verbatim>\<open>names.dmp\<close>: identifier, name and name class.\<close>

definition parse_name :: "string \<Rightarrow> py_error + (int \<times> string \<times> string)" where
  "parse_name line =
     (let parts = split_sep field_sep (strip line) in
      case field parts 0 of Inl e \<Rightarrow> Inl e | Inr f0 \<Rightarrow>
      case py_int (strip f0) of Inl e \<Rightarrow> Inl e | Inr tax_id \<Rightarrow>
      case field parts 1 of Inl e \<Rightarrow> Inl e | Inr f1 \<Rightarrow>
      case field parts 3 of Inl e \<Rightarrow> Inl e | Inr f3 \<Rightarrow>
      Inr (tax_id, strip f1, rstrip_chars [CHR 0x09, CHR ''|''] (strip f3)))"

fun load_names_loop :: "string list \<Rightarrow> (int \<rightharpoonup> string) \<Rightarrow> py_error + (int \<rightharpoonup> string)" where
  "load_names_loop [] names_dict = Inr names_dict"
| "load_names_loop (line # lines) names_dict =
     (case parse_name line of
        Inl e \<Rightarrow> Inl e
      | Inr (tax_id, name, name_class) \<Rightarrow>
          if name_class = ''scientific name''
          then load_names_loop lines (names_dict(tax_id \<mapsto> name))
          else load_names_loop lines names_dict)"

definition load_names :: "string list \<Rightarrow> py_error + (int \<rightharpoonup> string)" where
  "load_names lines = load_names_loop lines Map.empty"

text \<open>The fields of a line as the specification names them. A node line is well formed when
  it has at least three fields and its first two are integers.\<close>

definition fields :: "string \<Rightarrow> string list" where
  "fields line = split_sep field_sep (strip line)"

definition well_formed_node :: "string \<Rightarrow> bool" where
  "well_formed_node line =
     (3 \<le> length (fields line) \<and>
      \<not> isl (py_int (strip (fields line ! 0))) \<and> \<not> isl (py_int (strip (fields line ! 1))))"

definition node_id :: "string \<Rightarrow> int" where
  "node_id line = projr (py_int (strip (fields line ! 0)))"

definition node_parent :: "string \<Rightarrow> int" where
  "node_parent line = projr (py_int (strip (fields line ! 1)))"

definition node_rank :: "string \<Rightarrow> string" where
  "node_rank line = strip (fields line ! 2)"

text \<open>The mappings the specification promises: for each identifier the parent and the rank of
  its last line, and for each parent the identifiers of its lines in file order.\<close>

definition spec_parents :: "string list \<Rightarrow> (int \<rightharpoonup> int)" where
  "spec_parents lines = map_of (rev (map (\<lambda>l. (node_id l, node_parent l)) lines))"

definition spec_ranks :: "string list \<Rightarrow> (int \<rightharpoonup> string)" where
  "spec_ranks lines = map_of (rev (map (\<lambda>l. (node_id l, node_rank l)) lines))"

definition spec_children :: "string list \<Rightarrow> children_dict" where
  "spec_children lines p =
     (let cs = map node_id (filter (\<lambda>l. node_parent l = p) lines)
      in if cs = [] then None else Some cs)"

text \<open>The identifier, name and name class of a line of the name file; \<open>is_sci line i\<close>: the
  line is a scientific-name line for identifier \<open>i\<close>.\<close>

definition name_id :: "string \<Rightarrow> int" where
  "name_id line = projr (py_int (strip (fields line ! 0)))"

definition name_text :: "string \<Rightarrow> string" where
  "name_text line = strip (fields line ! 1)"

definition name_class :: "string \<Rightarrow> string" where
  "name_class line = rstrip_chars [CHR 0x09, CHR ''|''] (strip (fields line ! 3))"

definition is_sci :: "string \<Rightarrow> int \<Rightarrow> bool" where
  "is_sci line i = (name_id line = i \<and> name_class line = ''scientific name'')"

text \<open>\<open>last_sci lines i n\<close>: the last scientific-name line for \<open>i\<close>, in file order, gives the
  name \<open>n\<close>.\<close>

definition last_sci :: "string list \<Rightarrow> int \<Rightarrow> string \<Rightarrow> bool" where
  "last_sci lines i n =
     (\<exists>pre l post. lines = pre @ l # post \<and> is_sci l i \<and> name_text l = n \<and>
        \<not> list_ex (\<lambda>l'. is_sci l' i) post)"

text \<open>Two small dump files, in the format of the NCBI files.\<close>

definition node_lines_ok :: "string list" where
  "node_lines_ok =
    [''7'' @ field_sep @ ''1'' @ field_sep @ ''species'' @ field_sep @ ''PL'' @ [CHR 0x09, CHR ''|'', CHR 0x0A],
     ''8'' @ field_sep @ ''1'' @ field_sep @ ''genus'' @ field_sep @ ''PG'' @ [CHR 0x09, CHR ''|'', CHR 0x0A]]"

definition name_lines_ok :: "string list" where
  "name_lines_ok =
    [''7'' @ field_sep @ ''Felis leo'' @ field_sep @ field_sep @ ''scientific name'' @ [CHR 0x09, CHR ''|'', CHR 0x0A],
     ''7'' @ field_sep @ ''lion'' @ field_sep @ field_sep @ ''genbank common name'' @ [CHR 0x09, CHR ''|'', CHR 0x0A],
     ''7'' @ field_sep @ ''Panthera leo'' @ field_sep @ field_sep @ ''scientific name'' @ [CHR 0x09, CHR ''|'', CHR 0x0A],
     ''8'' @ field_sep @ ''big cats'' @ field_sep @ field_sep @ ''common name'' @ [CHR 0x09, CHR ''|'', CHR 0x0A]]"

section \<open>The pipeline\<close>

definition MAMMALIA_TAX_ID :: int where
  "MAMMALIA_TAX_ID = 40674"

text \<open>\<^verbatim>\<open>names_dict.get(tax_id, "Unknown")\<close>.\<close>

definition name_or_unknown :: "(int \<rightharpoonup> string) \<Rightarrow> int \<Rightarrow> string" where
  "name_or_unknown names_dict tax_id =
     (case names_dict tax_id of None \<Rightarrow> ''Unknown'' | Some name \<Rightarrow> name)"

text \<open>The loop over the descendants, in the order \<open>ids\<close> in which the set is iterated: the
  names of the identifiers of rank \<^verbatim>\<open>"species"\<close> go to \<^verbatim>\<open>all_mammal_species\<close>, the valid ones
  among them to \<^verbatim>\<open>valid_mammal_species\<close> as well.\<close>

fun species_loop ::
  "(int \<rightharpoonup> string) \<Rightarrow> (int \<rightharpoonup> string) \<Rightarrow> int list \<Rightarrow> string list \<times> string list \<Rightarrow>
   py_error + (string list \<times> string list)" where
  "species_loop rank_dict names_dict [] found = Inr found"
| "species_loop rank_dict names_dict (tax_id # ids) (all_mammal_species, valid_mammal_species) =
     (if rank_dict tax_id = Some ''species'' then
        (let name = name_or_unknown names_dict tax_id in
         case is_valid_species_name name of
           Inl e \<Rightarrow> Inl e
         | Inr ok \<Rightarrow>
             species_loop rank_dict names_dict ids
               (all_mammal_species @ [name],
                if ok then valid_mammal_species @ [name] else valid_mammal_species))
      else species_loop rank_dict names_dict ids (all_mammal_species, valid_mammal_species))"

text \<open>\<^verbatim>\<open>main\<close> on the lines of the two files. Python does not fix the order in which a set is
  iterated, so the order is a parameter: \<open>order S\<close> lists the set \<open>S\<close>. The result is the two
  sorted lists (\<^verbatim>\<open>list.sort\<close> compares strings by code point); \<open>None\<close> stands for a
  traversal that does not return. The messages printed on the way are not modelled.\<close>

definition main ::
  "(int set \<Rightarrow> int list) \<Rightarrow> string list \<Rightarrow> string list \<Rightarrow>
   (py_error + (string list \<times> string list)) option" where
  "main order nodes_lines names_lines =
     (case load_nodes nodes_lines of
        Inl e \<Rightarrow> Some (Inl e)
      | Inr (parent_dict, rank_dict, children_dict) \<Rightarrow>
          (case load_names names_lines of
             Inl e \<Rightarrow> Some (Inl e)
           | Inr names_dict \<Rightarrow>
               (case get_all_descendants MAMMALIA_TAX_ID children_dict of
                  None \<Rightarrow> None
                | Some descendants \<Rightarrow>
                    (case species_loop rank_dict names_dict (order descendants) ([], []) of
                       Inl e \<Rightarrow> Some (Inl e)
                     | Inr (all_mammal_species, valid_mammal_species) \<Rightarrow>
                         Some (Inr (sort all_mammal_species, sort valid_mammal_species))))))"

text \<open>The text written to the output file: each confirmed name followed by a newline.\<close>

definition file_text :: "string list \<Rightarrow> string" where
  "file_text names = concat (map (\<lambda>name. name @ [CHR 0x0A]) names)"

definition output_file ::
  "(int set \<Rightarrow> int list) \<Rightarrow> string list \<Rightarrow> string list \<Rightarrow> (py_error + string) option" where
  "output_file order nodes_lines names_lines =
     map_option (map_sum id (\<lambda>found. file_text (snd found))) (main order nodes_lines names_lines)"

text \<open>\<open>order\<close> is an iteration order: it lists every finite set, each element once.\<close>

definition iteration_order :: "(int set \<Rightarrow> int list) \<Rightarrow> bool" where
  "iteration_order order = (\<forall>S. finite S \<longrightarrow> set (order S) = S \<and> distinct (order S))"

text \<open>The names of the species among the identifiers \<open>ids\<close>, and the test the validator
  stands for.\<close>

definition species_names :: "(int \<rightharpoonup> string) \<Rightarrow> (int \<rightharpoonup> string) \<Rightarrow> int list \<Rightarrow> string list" where
  "species_names rank_dict names_dict ids =
     map (name_or_unknown names_dict) (filter (\<lambda>i. rank_dict i = Some ''species'') ids)"

definition confirmed :: "string \<Rightarrow> bool" where
  "confirmed name = (is_valid_species_name name = Inr True)"

text \<open>A taxonomy of two species, both with confirmed names, and one in which the second
  species has a provisional name.\<close>

definition mammal_nodes :: "string list" where
  "mammal_nodes =
    [''40674'' @ field_sep @ ''32524'' @ field_sep @ ''class'' @ field_sep @ [CHR 0x09, CHR ''|'', CHR 0x0A],
     ''9689'' @ field_sep @ ''40674'' @ field_sep @ ''species'' @ field_sep @ ''PL'' @ [CHR 0x09, CHR ''|'', CHR 0x0A],
     ''9606'' @ field_sep @ ''40674'' @ field_sep @ ''species'' @ field_sep @ ''HS'' @ [CHR 0x09, CHR ''|'', CHR 0x0A]]"

definition mammal_names :: "string list" where
  "mammal_names =
    [''9689'' @ field_sep @ ''Panthera leo'' @ field_sep @ field_sep @ ''scientific name'' @ [CHR 0x09, CHR ''|'', CHR 0x0A],
     ''9606'' @ field_sep @ ''Homo sapiens'' @ field_sep @ field_sep @ ''scientific name'' @ [CHR 0x09, CHR ''|'', CHR 0x0A]]"

definition mammal_names_sp :: "string list" where
  "mammal_names_sp =
    [''9689'' @ field_sep @ ''Panthera leo'' @ field_sep @ field_sep @ ''scientific name'' @ [CHR 0x09, CHR ''|'', CHR 0x0A],
     ''9606'' @ field_sep @ ''Homo sp.'' @ field_sep @ field_sep @ ''scientific name'' @ [CHR 0x09, CHR ''|'', CHR 0x0A]]"

section \<open>Characters\<close>

lemma of_char_lower_char:
  "of_char (lower_char c) = (if isupper c then of_char c + 32 else (of_char c :: nat))"
  by (auto simp: lower_char_def isupper_def in_codes_def split: if_splits)

lemma not_isupper_lower_char: "\<not> isupper (lower_char c)"
  by (simp add: isupper_def in_codes_def of_char_lower_char)

lemma not_AZ_lower_char: "\<not> in_range CHR ''A'' CHR ''Z'' (lower_char c)"
  using not_isupper_lower_char[of c]
  by (auto simp: in_range_def isupper_def in_codes_def split: if_splits)

section \<open>Words and the validator's result\<close>

lemma split_ws_nonempty: "w \<in> set (split_ws acc s) \<Longrightarrow> w \<noteq> []"
  by (induction s arbitrary: acc) (auto split: if_splits)

lemma py_split_nonempty: "w \<in> set (py_split s) \<Longrightarrow> w \<noteq> []"
  unfolding py_split_def by (rule split_ws_nonempty)

lemma first_char_nonempty: "w \<noteq> [] \<Longrightarrow> first_char w = Inr (hd w)"
  by (cases w) simp_all

lemma rest_lower_total:
  "(\<And>w. w \<in> set ws \<Longrightarrow> w \<noteq> []) \<Longrightarrow> rest_lower ws = Inr (list_all (\<lambda>w. islower (hd w)) ws)"
  by (induction ws) (simp_all add: first_char_nonempty)


lemma valid_with_eq:
  "valid_with ps name =
     Inr (\<not> any_pattern ps (lower name) \<and>
          (length (py_split name) = 2 \<or> length (py_split name) = 3) \<and>
          isupper (hd (hd (py_split name))) \<and>
          list_all (\<lambda>w. islower (hd w)) (drop 1 (py_split name)))"
proof -
  have ne: "\<And>w. w \<in> set (py_split name) \<Longrightarrow> w \<noteq> []"
    by (rule py_split_nonempty)
  have rest: "rest_lower (drop 1 (py_split name)) =
      Inr (list_all (\<lambda>w. islower (hd w)) (drop 1 (py_split name)))"
    by (rule rest_lower_total) (auto dest: in_set_dropD ne)
  show ?thesis
  proof (cases "length (py_split name) < 2 \<or> length (py_split name) > 3")
    case True
    then show ?thesis by (auto simp: valid_with_def Let_def)
  next
    case False
    then have "py_split name \<noteq> []" by auto
    then have "py_split name ! 0 \<in> set (py_split name)" by simp
    then have "first_char (py_split name ! 0) = Inr (hd (hd (py_split name)))"
      using ne \<open>py_split name \<noteq> []\<close> by (simp add: first_char_nonempty hd_conv_nth)
    moreover have "length (py_split name) = 2 \<or> length (py_split name) = 3"
      using False by arith
    ultimately show ?thesis
      using False rest by (auto simp: valid_with_def Let_def)
  qed
qed

section \<open>The two code patterns on lower-cased text\<close>

lemma search_from_no_start:
  "(\<And>p cs. matches r (p, cs) \<noteq> [] \<Longrightarrow> cs \<noteq> [] \<and> P (hd cs)) \<Longrightarrow>
   (\<And>c. c \<in> set s \<Longrightarrow> \<not> P c) \<Longrightarrow> \<not> search_from r p s"
proof (induction s arbitrary: p)
  case Nil
  then show ?case by auto
next
  case (Cons c s)
  have "matches r (p, c # s) = []"
    using Cons.prems(1)[of p "c # s"] Cons.prems(2)[of c] by auto
  moreover have "\<not> search_from r (Some c) s"
    using Cons.IH[of "Some c"] Cons.prems by auto
  ultimately show ?case by simp
qed

lemma step_char_start: "step_char Q (p, cs) \<noteq> [] \<Longrightarrow> cs \<noteq> [] \<and> Q (hd cs)"
  by (cases cs) (auto split: if_splits)

lemma matches_Cat_start: "matches (Cat r1 r2) st \<noteq> [] \<Longrightarrow> matches r1 st \<noteq> []"
  by auto

lemma matches_RepMin_start: "matches (RepMin (Suc n) r) st \<noteq> [] \<Longrightarrow> matches r st \<noteq> []"
  by auto

lemma code_hyphen_year_start:
  assumes "matches code_hyphen_year (p, cs) \<noteq> []"
  shows "cs \<noteq> [] \<and> in_range CHR ''A'' CHR ''Z'' (hd cs)"
proof -
  have e: "code_hyphen_year =
      Cat (RepMin (Suc 1) (Range CHR ''A'' CHR ''Z'')) (Cat (Lit ''-'') (Rep 4 Digit))"
    by (simp add: code_hyphen_year_def)
  have "matches (RepMin (Suc 1) (Range CHR ''A'' CHR ''Z'')) (p, cs) \<noteq> []"
    using assms unfolding e by (rule matches_Cat_start)
  then have "matches (Range CHR ''A'' CHR ''Z'') (p, cs) \<noteq> []"
    by (rule matches_RepMin_start)
  then show ?thesis by (simp add: step_char_start)
qed

lemma code_catalog_start:
  assumes "matches code_catalog (p, cs) \<noteq> []"
  shows "cs \<noteq> [] \<and> in_range CHR ''A'' CHR ''Z'' (hd cs)"
proof -
  have e: "code_catalog = Cat (RepMin (Suc 2) (Range CHR ''A'' CHR ''Z'')) (RepMin 1 Digit)"
    by (simp add: code_catalog_def)
  have "matches (RepMin (Suc 2) (Range CHR ''A'' CHR ''Z'')) (p, cs) \<noteq> []"
    using assms unfolding e by (rule matches_Cat_start)
  then have "matches (Range CHR ''A'' CHR ''Z'') (p, cs) \<noteq> []"
    by (rule matches_RepMin_start)
  then show ?thesis by (simp add: step_char_start)
qed

lemma code_hyphen_year_lower: "\<not> re_search code_hyphen_year (lower name)"
  unfolding re_search_def
  by (rule search_from_no_start[where P = "in_range CHR ''A'' CHR ''Z''"])
     (auto dest: code_hyphen_year_start simp: lower_def not_AZ_lower_char)

lemma code_catalog_lower: "\<not> re_search code_catalog (lower name)"
  unfolding re_search_def
  by (rule search_from_no_start[where P = "in_range CHR ''A'' CHR ''Z''"])
     (auto dest: code_catalog_start simp: lower_def not_AZ_lower_char)

section \<open>Evaluating the validator\<close>

lemma matches_boundary_first:
  "matches (Cat WordB r) st =
     (if matches r st = [] then []
      else if word_before st \<noteq> word_after st then matches r st else [])"
  by simp

lemma matches_Cat_Lit:
  "matches (Cat (Lit w) r) st = concat (map (matches r) (matches (Lit w) st))"
  by simp

lemma matches_Cat_Alt:
  "matches (Cat (Alt r1 r2) r) st = concat (map (matches r) (matches (Alt r1 r2) st))"
  by simp

lemma matches_Cat_RepMin:
  "matches (Cat (RepMin n r1) r) st =
     (if matches r1 st = [] \<and> n \<noteq> 0 then []
      else concat (map (matches r) (matches (RepMin n r1) st)))"
  by (cases n) auto

lemma matches_Rep_numeral:
  "matches (Rep (numeral k) r) st =
     concat (map (matches (Rep (pred_numeral k) r)) (matches r st))"
  by (simp add: numeral_eq_Suc)

lemma matches_RepMin_numeral:
  "matches (RepMin (numeral k) r) st =
     concat (map (matches (RepMin (pred_numeral k) r)) (matches r st))"
  by (simp add: numeral_eq_Suc)

lemmas name_eval =
  is_valid_species_name_def valid_with_def exclude_patterns_def word_def code_hyphen_year_def
  code_catalog_def re_search_def lower_def lower_char_def isupper_def islower_def
  isspace_def isword_def isdecimal_def in_codes_def py_split_def word_before_def word_after_def
  in_range_def Let_def char_of_def bit_0 bit_Suc
  matches_boundary_first matches_Cat_Lit matches_Cat_Alt matches_Cat_RepMin
  matches_Rep_numeral matches_RepMin_numeral

lemma valid_panthera_leo: "is_valid_species_name ''Panthera leo'' = Inr True"
  by (simp add: name_eval del: matches.simps(6))


lemma valid_panthera_leo_sp: "is_valid_species_name ''Panthera leo sp.'' = Inr False"
  by (simp add: name_eval del: matches.simps(6))

lemma valid_canis_lupus_isolate: "is_valid_species_name ''Canis lupus (isolate 12)'' = Inr False"
  by (simp add: name_eval del: matches.simps(6))

lemma valid_mus_musculus_bold: "is_valid_species_name ''Mus musculus BOLD:AAA1234'' = Inr False"
  by (simp add: name_eval del: matches.simps(6))

lemma valid_homo_sapiens_n: "is_valid_species_name ''Homo sapiens neanderthalensis'' = Inr True"
  by (simp add: name_eval del: matches.simps(6))

lemma valid_unknown: "is_valid_species_name ''Unknown'' = Inr False"
  by (simp add: name_eval del: matches.simps(6))

lemma valid_empty: "is_valid_species_name [] = Inr False"
  by (simp add: name_eval del: matches.simps(6))

lemma valid_short: "length (py_split name) < 2 \<Longrightarrow> is_valid_species_name name = Inr False"
  by (simp add: is_valid_species_name_def valid_with_def Let_def)

section \<open>The validator and its specification\<close>

lemma text_patterns_eq:
  "text_patterns =
    [Cat WordB (Lit ''sp.''), Cat WordB (Lit ''cf.''), Cat WordB (Lit ''aff.''), word ''x'',
     word ''isolate'', word ''haplotype'', Cat WordB (Lit ''gen.''), word ''gen'',
     word ''environmental'', word ''mixed'', Cat WordB (Lit ''indet.''), Lit ''bold:'',
     OneOf ''()'', Rep 4 Digit,
     Cat WordB (Cat (Alt (Lit ''complex'') (Lit ''group'')) WordB)]"
  by (simp add: text_patterns_def exclude_patterns_def code_hyphen_year_def code_catalog_def word_def)

lemma any_pattern_text:
  "any_pattern exclude_patterns (lower name) = any_pattern text_patterns (lower name)"
  by (simp add: exclude_patterns_def text_patterns_eq code_hyphen_year_lower code_catalog_lower)


section \<open>Claims about the name validator\<close>


text \<open>
  Claim C3: the patterns \<^verbatim>\<open>[A-Z]{2,}-\d{4}\<close> and \<^verbatim>\<open>[A-Z]{3,}\d+\<close> are never found in a
  lower-cased name, so the validator equals the validator without these two patterns.
\<close>

theorem code_patterns_unreachable:
  "\<not> re_search code_hyphen_year (lower name) \<and>
   \<not> re_search code_catalog (lower name) \<and>
   is_valid_species_name name = valid_with text_patterns name"
  by (simp add: code_hyphen_year_lower code_catalog_lower is_valid_species_name_def
      valid_with_eq any_pattern_text)

text \<open>The other side of this: a name that holds an upper-case catalog code, found by the
  pattern in the name as written, is accepted all the same.\<close>

lemma valid_upper_code:
  "re_search code_catalog ''ABC12 def'' \<and> is_valid_species_name ''ABC12 def'' = Inr True"
  by (simp add: name_eval del: matches.simps(6))

text \<open>
  Claim C8: the validator on the five example names of the specification.
\<close>

theorem is_valid_examples:
  "is_valid_species_name ''Panthera leo'' = Inr True \<and>
   is_valid_species_name ''Panthera leo sp.'' = Inr False \<and>
   is_valid_species_name ''Canis lupus (isolate 12)'' = Inr False \<and>
   is_valid_species_name ''Mus musculus BOLD:AAA1234'' = Inr False \<and>
   is_valid_species_name ''Homo sapiens neanderthalensis'' = Inr True"
  by (simp add: valid_panthera_leo valid_panthera_leo_sp valid_canis_lupus_isolate
      valid_mus_musculus_bold valid_homo_sapiens_n)

text \<open>
  Claim C10: the validator returns a boolean on every string, never the \<^verbatim>\<open>IndexError\<close> of
  \<^verbatim>\<open>word[0]\<close>; a name of fewer than two words (the empty string and whitespace-only
  strings among them) is rejected before any word is indexed, and the fallback name
  ``Unknown'' is not valid.
\<close>

theorem is_valid_total:
  "(\<exists>b. is_valid_species_name name = Inr b) \<and>
   (length (py_split name) < 2 \<longrightarrow> is_valid_species_name name = Inr False) \<and>
   is_valid_species_name [] = Inr False \<and>
   is_valid_species_name ''Unknown'' = Inr False"
  by (simp add: valid_short valid_empty valid_unknown)
     (simp add: is_valid_species_name_def valid_with_eq)

theorem is_valid_total_witness:
  "py_split [CHR '' '', CHR 0x09, CHR '' ''] = [] \<and>
   is_valid_species_name [CHR '' '', CHR 0x09, CHR '' ''] = Inr False"
proof -
  have a: "py_split [CHR '' '', CHR 0x09, CHR '' ''] = []"
    by (simp add: py_split_def isspace_def in_codes_def)
  then show ?thesis
    using is_valid_total[of "[CHR '' '', CHR 0x09, CHR '' '']"] by simp
qed

section \<open>The descendant traversal: invariant and termination\<close>

lemma visit_children_spec:
  "visit_children cs (d, q) = (d', q') \<Longrightarrow>
   d' = d \<union> set cs \<and> (\<exists>new. q' = q @ new \<and> distinct new \<and> set new = set cs - d)"
proof (induction cs arbitrary: d q)
  case Nil
  then show ?case by simp
next
  case (Cons c cs)
  show ?case
  proof (cases "c \<in> d")
    case True
    with Cons.prems have "visit_children cs (d, q) = (d', q')" by simp
    from Cons.IH[OF this] True show ?thesis by auto
  next
    case False
    with Cons.prems have "visit_children cs (insert c d, q @ [c]) = (d', q')" by simp
    from Cons.IH[OF this] obtain new where
      d': "d' = insert c d \<union> set cs" and q': "q' = (q @ [c]) @ new"
      and dn: "distinct new" and sn: "set new = set cs - insert c d"
      by blast
    have "q' = q @ (c # new)" using q' by simp
    moreover have "distinct (c # new)" using dn sn by auto
    moreover have "set (c # new) = set (c # cs) - d" using sn False by auto
    ultimately show ?thesis using d' by auto
  qed
qed

lemma edges_children: "cd p = Some cs \<Longrightarrow> edges cd `` {p} = set cs"
  by (auto simp: edges_def)

lemma edges_no_children: "cd p = None \<Longrightarrow> edges cd `` {p} = {}"
  by (auto simp: edges_def)

lemma finite_Range_edges: "finite (dom cd) \<Longrightarrow> finite (Relation.Range (edges cd))"
proof -
  assume "finite (dom cd)"
  then have "finite (ran cd)" by (rule finite_ran)
  then have "finite (\<Union> (set ` ran cd))" by simp
  moreover have "Relation.Range (edges cd) \<subseteq> \<Union> (set ` ran cd)"
    by (auto simp: edges_def ran_def)
  ultimately show ?thesis by (rule rev_finite_subset)
qed

lemma closed_trancl:
  assumes "\<forall>x \<in> insert r d. E `` {x} \<subseteq> d" and "(r, y) \<in> E\<^sup>+"
  shows "y \<in> d"
  using assms(2)
proof (induction rule: trancl_induct)
  case (base y)
  then show ?case using assms(1) by auto
next
  case (step y z)
  then show ?case using assms(1) by auto
qed

lemma bfs_inv_done:
  assumes "bfs_inv cd r d [] enq"
  shows "d = (edges cd)\<^sup>+ `` {r}"
proof
  show "d \<subseteq> (edges cd)\<^sup>+ `` {r}" using assms by (simp add: bfs_inv_def)
  have cl: "\<forall>x \<in> insert r d. edges cd `` {x} \<subseteq> d" using assms by (simp add: bfs_inv_def)
  show "(edges cd)\<^sup>+ `` {r} \<subseteq> d"
  proof
    fix y assume "y \<in> (edges cd)\<^sup>+ `` {r}"
    then have "(r, y) \<in> (edges cd)\<^sup>+" by simp
    with cl show "y \<in> d" by (rule closed_trancl)
  qed
qed

lemma bfs_inv_skip:
  assumes "bfs_inv cd r d (current # rest) enq" and "cd current = None"
  shows "bfs_inv cd r d rest enq"
proof -
  have "\<forall>x \<in> insert r d - set rest. edges cd `` {x} \<subseteq> d"
  proof
    fix x assume x: "x \<in> insert r d - set rest"
    show "edges cd `` {x} \<subseteq> d"
    proof (cases "x = current")
      case True
      then show ?thesis using assms(2) by (simp add: edges_no_children)
    next
      case False
      then have "x \<in> insert r d - set (current # rest)" using x by auto
      then show ?thesis using assms(1) unfolding bfs_inv_def by blast
    qed
  qed
  then show ?thesis using assms(1) unfolding bfs_inv_def by auto
qed

lemma bfs_inv_visit:
  assumes inv: "bfs_inv cd r d (current # rest) enq" and cs: "cd current = Some cs"
    and new: "distinct new" "set new = set cs - d"
  shows "bfs_inv cd r (d \<union> set cs) (rest @ new) (enq @ new)"
proof -
  from inv have i1: "d \<subseteq> (edges cd)\<^sup>+ `` {r}" and i2: "set (current # rest) \<subseteq> insert r d"
    and i3: "\<forall>x \<in> insert r d - set (current # rest). edges cd `` {x} \<subseteq> d"
    by (simp_all add: bfs_inv_def)
  from inv obtain log where log: "enq = r # log" "distinct log" "set log = d"
    unfolding bfs_inv_def by blast
  have cur: "current = r \<or> (r, current) \<in> (edges cd)\<^sup>+" using i1 i2 by auto
  have ch: "\<And>c. c \<in> set cs \<Longrightarrow> (current, c) \<in> edges cd"
    using cs by (auto simp: edges_def)
  have a: "d \<union> set cs \<subseteq> (edges cd)\<^sup>+ `` {r}"
  proof -
    have "\<And>c. c \<in> set cs \<Longrightarrow> (r, c) \<in> (edges cd)\<^sup>+"
      using cur ch by (auto intro: trancl_into_trancl)
    then show ?thesis using i1 by auto
  qed
  have b: "set (rest @ new) \<subseteq> insert r (d \<union> set cs)" using i2 new by auto
  have c: "\<forall>x \<in> insert r (d \<union> set cs) - set (rest @ new). edges cd `` {x} \<subseteq> d \<union> set cs"
  proof
    fix x assume x: "x \<in> insert r (d \<union> set cs) - set (rest @ new)"
    show "edges cd `` {x} \<subseteq> d \<union> set cs"
    proof (cases "x = current")
      case True
      then show ?thesis using cs by (simp add: edges_children)
    next
      case False
      have "x \<in> insert r d" using x new by auto
      then have "x \<in> insert r d - set (current # rest)" using x False by auto
      then have "edges cd `` {x} \<subseteq> d" using i3 by blast
      then show ?thesis by auto
    qed
  qed
  have e: "enq @ new = r # (log @ new) \<and> distinct (log @ new) \<and> set (log @ new) = d \<union> set cs"
    using log new by auto
  show ?thesis unfolding bfs_inv_def using a b c e by blast
qed

lemma card_visit:
  assumes "finite N" and "set cs \<subseteq> N" and "distinct new" and "set new = set cs - d"
  shows "card (N - (d \<union> set cs)) + length new = card (N - d)"
proof -
  have "N - d = (N - (d \<union> set cs)) \<union> set new" using assms(2,4) by auto
  moreover have "(N - (d \<union> set cs)) \<inter> set new = {}" using assms(4) by auto
  moreover have "finite (N - (d \<union> set cs))" using assms(1) by simp
  ultimately have "card (N - d) = card (N - (d \<union> set cs)) + card (set new)"
    by (simp add: card_Un_disjoint)
  then show ?thesis using assms(3) by (simp add: distinct_card)
qed

lemma bfs_total:
  assumes fin: "finite (dom cd)"
  shows "bfs_inv cd r d q enq \<Longrightarrow>
    \<exists>log. bfs_trace cd d q enq = Some ((edges cd)\<^sup>+ `` {r}, r # log) \<and>
          bfs_loop cd d q = Some ((edges cd)\<^sup>+ `` {r}) \<and>
          distinct log \<and> set log = (edges cd)\<^sup>+ `` {r}"
proof (induction "2 * card (Relation.Range (edges cd) - d) + length q" arbitrary: d q enq rule: less_induct)
  case less
  let ?N = "Relation.Range (edges cd)"
  have finN: "finite ?N" using fin by (rule finite_Range_edges)
  show ?case
  proof (cases q)
    case Nil
    from less.prems obtain log where log: "enq = r # log" "distinct log" "set log = d"
      unfolding bfs_inv_def by blast
    have d: "d = (edges cd)\<^sup>+ `` {r}" using less.prems unfolding Nil by (rule bfs_inv_done)
    have "bfs_trace cd d [] enq = Some (d, enq)" by (subst bfs_trace.simps) simp
    moreover have "bfs_loop cd d [] = Some d" by (subst bfs_loop.simps) simp
    ultimately show ?thesis using log d unfolding Nil by auto
  next
    case (Cons current rest)
    show ?thesis
    proof (cases "cd current")
      case None
      have inv: "bfs_inv cd r d rest enq"
        using less.prems None unfolding Cons by (rule bfs_inv_skip)
      have "2 * card (?N - d) + length rest < 2 * card (?N - d) + length q"
        by (simp add: Cons)
      from less.hyps[OF this inv] obtain log where
        "bfs_trace cd d rest enq = Some ((edges cd)\<^sup>+ `` {r}, r # log)"
        "bfs_loop cd d rest = Some ((edges cd)\<^sup>+ `` {r})"
        "distinct log" "set log = (edges cd)\<^sup>+ `` {r}"
        by blast
      moreover have "bfs_trace cd d q enq = bfs_trace cd d rest enq"
        by (subst bfs_trace.simps) (simp add: Cons None)
      moreover have "bfs_loop cd d q = bfs_loop cd d rest"
        by (subst bfs_loop.simps) (simp add: Cons None)
      ultimately show ?thesis by auto
    next
      case (Some cs)
      obtain d' q' where v: "visit_children cs (d, rest) = (d', q')"
        by (cases "visit_children cs (d, rest)")
      from visit_children_spec[OF v] obtain new where
        d': "d' = d \<union> set cs" and q': "q' = rest @ new"
        and new: "distinct new" "set new = set cs - d"
        by blast
      have inv: "bfs_inv cd r d' q' (enq @ new)"
        unfolding d' q' using less.prems Some new unfolding Cons by (rule bfs_inv_visit)
      have "set cs \<subseteq> ?N" using Some by (auto simp: edges_def Range_iff)
      from card_visit[OF finN this new]
      have "2 * card (?N - d') + length q' < 2 * card (?N - d) + length q"
        by (simp add: Cons d' q')
      from less.hyps[OF this inv] obtain log where
        "bfs_trace cd d' q' (enq @ new) = Some ((edges cd)\<^sup>+ `` {r}, r # log)"
        "bfs_loop cd d' q' = Some ((edges cd)\<^sup>+ `` {r})"
        "distinct log" "set log = (edges cd)\<^sup>+ `` {r}"
        by blast
      moreover have "bfs_trace cd d q enq = bfs_trace cd d' q' (enq @ new)"
        by (subst bfs_trace.simps) (simp add: Cons Some v q')
      moreover have "bfs_loop cd d q = bfs_loop cd d' q'"
        by (subst bfs_loop.simps) (simp add: Cons Some v)
      ultimately show ?thesis by auto
    qed
  qed
qed

lemma bfs_inv_init: "bfs_inv cd r {} [r] [r]"
  by (simp add: bfs_inv_def)

lemma get_all_descendants_total:
  assumes "finite (dom cd)"
  shows "\<exists>log. get_all_descendants r cd = Some ((edges cd)\<^sup>+ `` {r}) \<and>
               enqueued r cd = Some (r # log) \<and> distinct log \<and>
               set log = (edges cd)\<^sup>+ `` {r}"
  using bfs_total[OF assms bfs_inv_init, of r]
  by (auto simp: get_all_descendants_def enqueued_def)

lemma descendants_self_loop:
  "get_all_descendants 1 [1 \<mapsto> [1]] = Some {1}"
  by (simp add: get_all_descendants_def bfs_loop.simps)

lemma enqueued_self_loop:
  "enqueued 1 [1 \<mapsto> [1]] = Some [1, 1]"
  by (simp add: enqueued_def bfs_trace.simps)

lemma descendants_two_children:
  "get_all_descendants 1 [1 \<mapsto> [2, 3]] = Some {2, 3}"
  by (simp add: get_all_descendants_def bfs_loop.simps insert_commute)

lemma enqueued_two_children:
  "enqueued 1 [1 \<mapsto> [2, 3]] = Some [1, 2, 3]"
  by (simp add: enqueued_def bfs_trace.simps)

lemma descendants_two_cycle:
  "get_all_descendants 1 [1 \<mapsto> [2], 2 \<mapsto> [1]] = Some {1, 2}"
  by (simp add: get_all_descendants_def bfs_loop.simps insert_commute)

section \<open>Claims about the descendant traversal\<close>

text \<open>
  Claim C2, as the specification states it: the returned set holds exactly the proper
  descendants of the root, never the root itself, and no identifier is put on the queue twice.
  On the mapping in which identifier 1 is its own child (as the root of the NCBI taxonomy
  is its own parent) the set returned for root 1 holds 1, and 1 is put on the queue twice.
\<close>

theorem descendants_root_counterexample:
  "get_all_descendants 1 [1 \<mapsto> [1]] = Some {1} \<and> enqueued 1 [1 \<mapsto> [1]] = Some [1, 1]"
  by (simp add: descendants_self_loop enqueued_self_loop)

text \<open>
  Claim C2, amended: for every root \<open>r\<close> and every mapping with finitely many keys, the
  traversal returns the set of the identifiers \<open>d\<close> with a non-empty path of parent links
  from \<open>d\<close> up to \<open>r\<close> (so it holds \<open>r\<close> exactly when \<open>r\<close> lies on a cycle); after the
  initial root, the identifiers put on the queue are those of the set, each once; when
  \<open>r\<close> is not in the set, no identifier is put on the queue twice.
\<close>

theorem get_all_descendants_spec:
  assumes "finite (dom children_dict)"
  shows "\<exists>S log. get_all_descendants r children_dict = Some S \<and>
           (\<forall>d. d \<in> S \<longleftrightarrow> (r, d) \<in> (edges children_dict)\<^sup>+) \<and>
           enqueued r children_dict = Some (r # log) \<and> distinct log \<and> set log = S \<and>
           (r \<notin> S \<longrightarrow> distinct (r # log))"
proof -
  from get_all_descendants_total[OF assms, of r] obtain log where
    "get_all_descendants r children_dict = Some ((edges children_dict)\<^sup>+ `` {r})"
    "enqueued r children_dict = Some (r # log)" "distinct log"
    "set log = (edges children_dict)\<^sup>+ `` {r}"
    by blast
  then show ?thesis by auto
qed

theorem get_all_descendants_spec_witness:
  "finite (dom [1 \<mapsto> [2, 3::int]]) \<and>
   get_all_descendants 1 [1 \<mapsto> [2, 3]] = Some {2, 3} \<and>
   enqueued 1 [1 \<mapsto> [2, 3]] = Some [1, 2, 3]"
  using get_all_descendants_spec[of "[1 \<mapsto> [2, 3]]" 1]
  by (simp add: descendants_two_children enqueued_two_children)

text \<open>
  Claim C4: on every mapping with finitely many keys and every root, cyclic mappings
  included, \<^verbatim>\<open>get_all_descendants\<close> returns, and after the initial root every identifier is
  put on the queue at most once.
\<close>

theorem get_all_descendants_terminates:
  assumes "finite (dom children_dict)"
  shows "\<exists>S log. get_all_descendants r children_dict = Some S \<and>
           enqueued r children_dict = Some (r # log) \<and> distinct log"
  using get_all_descendants_total[OF assms, of r] by blast

theorem get_all_descendants_terminates_witness:
  "finite (dom [1 \<mapsto> [2], 2 \<mapsto> [1::int]]) \<and>
   get_all_descendants 1 [1 \<mapsto> [2], 2 \<mapsto> [1]] = Some {1, 2}"
  using get_all_descendants_terminates[of "[1 \<mapsto> [2], 2 \<mapsto> [1]]" 1]
  by (simp add: descendants_two_cycle)

section \<open>The loaders: parsing and the loops\<close>

lemma split_on_nonempty: "split_on sep acc s \<noteq> []"
  by (induction sep acc s rule: split_on.induct) auto

lemma fields_nonempty: "0 < length (fields line)"
  by (simp add: fields_def split_sep_def split_on_nonempty)

lemma parse_node_wf:
  "well_formed_node l \<Longrightarrow> parse_node l = Inr (node_id l, node_parent l, node_rank l)"
  unfolding well_formed_node_def parse_node_def node_id_def node_parent_def node_rank_def
    fields_def[symmetric] Let_def field_def
  by (auto split: sum.splits)

lemma parse_node_bad: "\<not> well_formed_node l \<Longrightarrow> isl (parse_node l)"
  unfolding well_formed_node_def parse_node_def fields_def[symmetric] Let_def field_def
  using fields_nonempty[of l]
  by (auto split: sum.splits)

lemma load_nodes_loop_bad:
  "\<not> list_all well_formed_node lines \<Longrightarrow> isl (load_nodes_loop lines dicts)"
proof (induction lines arbitrary: dicts)
  case Nil
  then show ?case by simp
next
  case (Cons l lines)
  obtain pd rd cd where dicts: "dicts = (pd, rd, cd)" by (cases dicts)
  show ?case
  proof (cases "well_formed_node l")
    case True
    then have "\<not> list_all well_formed_node lines" using Cons.prems by simp
    then show ?thesis using Cons.IH True by (simp add: dicts parse_node_wf)
  next
    case False
    then have "isl (parse_node l)" by (rule parse_node_bad)
    then show ?thesis by (auto simp: dicts isl_def)
  qed
qed

lemma spec_children_Cons:
  "children_of (spec_children (l # lines)) p =
     (if node_parent l = p then [node_id l] else []) @ children_of (spec_children lines) p"
  by (simp add: spec_children_def children_of_def Let_def)

lemma children_of_upd:
  "children_of (cd(q \<mapsto> cs)) p = (if p = q then cs else children_of cd p)"
  by (simp add: children_of_def)

lemma spec_children_None: "(spec_children lines p = None) = (children_of (spec_children lines) p = [])"
  by (simp add: spec_children_def children_of_def Let_def)

lemma load_nodes_loop_wf:
  "list_all well_formed_node lines \<Longrightarrow>
   load_nodes_loop lines (pd, rd, cd) =
     Inr (pd ++ spec_parents lines, rd ++ spec_ranks lines,
          (\<lambda>p. if spec_children lines p = None then cd p
               else Some (children_of cd p @ children_of (spec_children lines) p)))"
proof (induction lines arbitrary: pd rd cd)
  case Nil
  then show ?case by (simp add: spec_parents_def spec_ranks_def spec_children_def)
next
  case (Cons l lines)
  let ?t = "node_id l" and ?q = "node_parent l" and ?k = "node_rank l"
  let ?cd1 = "cd(?q \<mapsto> children_of cd ?q @ [?t])"
  from Cons.prems have wf: "well_formed_node l" and rest: "list_all well_formed_node lines"
    by simp_all
  have step: "load_nodes_loop (l # lines) (pd, rd, cd) =
      load_nodes_loop lines (pd(?t \<mapsto> ?q), rd(?t \<mapsto> ?k), ?cd1)"
    by (simp add: parse_node_wf[OF wf])
  have p: "pd(?t \<mapsto> ?q) ++ spec_parents lines = pd ++ spec_parents (l # lines)"
    by (simp add: spec_parents_def map_add_def fun_eq_iff split: option.splits)
  have r: "rd(?t \<mapsto> ?k) ++ spec_ranks lines = rd ++ spec_ranks (l # lines)"
    by (simp add: spec_ranks_def map_add_def fun_eq_iff split: option.splits)
  have c: "(\<lambda>p. if spec_children lines p = None then ?cd1 p
               else Some (children_of ?cd1 p @ children_of (spec_children lines) p)) =
           (\<lambda>p. if spec_children (l # lines) p = None then cd p
               else Some (children_of cd p @ children_of (spec_children (l # lines)) p))"
    by (rule ext) (simp add: spec_children_None spec_children_Cons children_of_upd)
  show ?case
    unfolding step Cons.IH[OF rest] p r c ..
qed

lemma load_nodes_wf:
  assumes "list_all well_formed_node lines"
  shows "load_nodes lines = Inr (spec_parents lines, spec_ranks lines, spec_children lines)"
proof -
  have "(\<lambda>p. if spec_children lines p = None then Map.empty p
             else Some (children_of Map.empty p @ children_of (spec_children lines) p)) =
        spec_children lines"
    by (rule ext) (auto simp: children_of_def)
  then show ?thesis
    unfolding load_nodes_def load_nodes_loop_wf[OF assms] by simp
qed

lemma parse_name_ok:
  "parse_name l = Inr x \<Longrightarrow> x = (name_id l, name_text l, name_class l)"
  unfolding parse_name_def name_id_def name_text_def name_class_def fields_def[symmetric]
    Let_def field_def
  by (auto split: sum.splits if_splits)

lemma load_names_loop_snoc:
  "load_names_loop (lines @ [l]) m =
     (case load_names_loop lines m of
        Inl e \<Rightarrow> Inl e
      | Inr m' \<Rightarrow> load_names_loop [l] m')"
  by (induction lines arbitrary: m) (auto split: sum.splits)

lemma load_names_loop_one:
  "load_names_loop [l] m = Inr m' \<Longrightarrow>
   m' = (if name_class l = ''scientific name'' then m(name_id l \<mapsto> name_text l) else m)"
  by (auto split: sum.splits if_splits dest: parse_name_ok)

lemma snoc_decomp:
  "(pre @ x # post = ys @ [y]) =
     ((post = [] \<and> pre = ys \<and> x = y) \<or> (\<exists>post'. post = post' @ [y] \<and> ys = pre @ x # post'))"
  by (cases post rule: rev_cases) auto

lemma last_sci_Nil: "\<not> last_sci [] i n"
  by (simp add: last_sci_def)

lemma last_sci_snoc:
  "last_sci (lines @ [l]) i n =
     (if is_sci l i then name_text l = n else last_sci lines i n)"
proof (cases "is_sci l i")
  case True
  have "last_sci (lines @ [l]) i n = (name_text l = n)"
  proof
    assume "last_sci (lines @ [l]) i n"
    then obtain pre l0 post where d: "pre @ l0 # post = lines @ [l]" and s: "is_sci l0 i"
      and n: "name_text l0 = n" and p: "\<not> list_ex (\<lambda>l'. is_sci l' i) post"
      unfolding last_sci_def by metis
    from d have "post = [] \<and> l0 = l \<or> (\<exists>post'. post = post' @ [l])"
      unfolding snoc_decomp by blast
    with p True have "l0 = l" by auto
    with n show "name_text l = n" by simp
  next
    assume "name_text l = n"
    then have "lines @ [l] = lines @ l # [] \<and> is_sci l i \<and> name_text l = n \<and>
        \<not> list_ex (\<lambda>l'. is_sci l' i) []"
      using True by simp
    then show "last_sci (lines @ [l]) i n" unfolding last_sci_def by blast
  qed
  then show ?thesis using True by simp
next
  case False
  have "last_sci (lines @ [l]) i n = last_sci lines i n"
  proof
    assume "last_sci (lines @ [l]) i n"
    then obtain pre l0 post where d: "pre @ l0 # post = lines @ [l]" and s: "is_sci l0 i"
      and n: "name_text l0 = n" and p: "\<not> list_ex (\<lambda>l'. is_sci l' i) post"
      unfolding last_sci_def by metis
    from d s False obtain post' where "post = post' @ [l]" "lines = pre @ l0 # post'"
      unfolding snoc_decomp by blast
    then show "last_sci lines i n" using s n p unfolding last_sci_def by auto
  next
    assume "last_sci lines i n"
    then obtain pre l0 post where d: "lines = pre @ l0 # post" and s: "is_sci l0 i"
      and n: "name_text l0 = n" and p: "\<not> list_ex (\<lambda>l'. is_sci l' i) post"
      unfolding last_sci_def by blast
    have "lines @ [l] = pre @ l0 # (post @ [l])" using d by simp
    moreover have "\<not> list_ex (\<lambda>l'. is_sci l' i) (post @ [l])" using p False by simp
    ultimately show "last_sci (lines @ [l]) i n" using s n unfolding last_sci_def by blast
  qed
  then show ?thesis using False by simp
qed

lemma load_names_loop_spec:
  "load_names_loop lines Map.empty = Inr names \<Longrightarrow> (names i = Some n) = last_sci lines i n"
proof (induction lines arbitrary: names rule: rev_induct)
  case Nil
  then show ?case by (auto simp: last_sci_Nil)
next
  case (snoc l lines)
  from snoc.prems obtain m where m: "load_names_loop lines Map.empty = Inr m"
    and one: "load_names_loop [l] m = Inr names"
    unfolding load_names_loop_snoc by (auto split: sum.splits)
  have IH: "(m i = Some n) = last_sci lines i n" using snoc.IH[OF m] .
  have names: "names = (if name_class l = ''scientific name'' then m(name_id l \<mapsto> name_text l) else m)"
    using one by (rule load_names_loop_one)
  show ?case
    unfolding last_sci_snoc names using IH by (auto simp: is_sci_def)
qed

lemma last_sci_ex: "(\<exists>n. last_sci lines i n) = list_ex (\<lambda>l. is_sci l i) lines"
proof (induction lines rule: rev_induct)
  case Nil
  then show ?case by (simp add: last_sci_Nil)
next
  case (snoc l lines)
  then show ?case by (auto simp: last_sci_snoc)
qed

lemmas load_eval =
  fields_def split_sep_def field_sep_def strip_def isspace_def in_codes_def py_int_def
  isdecimal_def parse_node_def parse_name_def field_def rstrip_chars_def Let_def
  load_nodes_def load_names_def well_formed_node_def

lemma node_lines_ok_wf: "list_all well_formed_node node_lines_ok"
  by (simp add: node_lines_ok_def load_eval)

lemma load_node_lines_ok:
  "load_nodes node_lines_ok =
     Inr ([7 \<mapsto> 1, 8 \<mapsto> 1], [7 \<mapsto> ''species'', 8 \<mapsto> ''genus''], [1 \<mapsto> [7, 8]])"
  by (simp add: node_lines_ok_def load_eval children_of_def)

lemma short_line: "list_ex (\<lambda>l. length (fields l) < 3) [''7'' @ field_sep @ ''1'']"
  by (simp add: load_eval)

lemma bad_id_line:
  "list_ex (\<lambda>l. isl (py_int (strip (fields l ! 0)))) [''x7'' @ field_sep @ ''1'' @ field_sep @ ''species'']"
  by (simp add: load_eval)

lemma bad_parent_line:
  "list_ex (\<lambda>l. 1 < length (fields l) \<and> isl (py_int (strip (fields l ! 1))))
     [''7'' @ field_sep @ ''1.0'' @ field_sep @ ''species'']"
  by (simp add: load_eval)

section \<open>Claims about the loaders\<close>

text \<open>
  Claim C5: \<^verbatim>\<open>load_nodes\<close> raises when some line has fewer than three fields, or when the
  identifier or the parent field of some line is not an integer; on lines that are all well
  formed it returns the three mappings: identifier to parent, identifier to rank (the last
  line of an identifier counts), and parent to the list of its children in file order.
\<close>

theorem load_nodes_spec:
  "(list_ex (\<lambda>l. length (fields l) < 3) lines \<longrightarrow> isl (load_nodes lines)) \<and>
   (list_ex (\<lambda>l. isl (py_int (strip (fields l ! 0)))) lines \<longrightarrow> isl (load_nodes lines)) \<and>
   (list_ex (\<lambda>l. 1 < length (fields l) \<and> isl (py_int (strip (fields l ! 1)))) lines \<longrightarrow>
      isl (load_nodes lines)) \<and>
   (list_all well_formed_node lines \<longrightarrow>
      load_nodes lines = Inr (spec_parents lines, spec_ranks lines, spec_children lines))"
proof -
  have bad: "\<not> list_all well_formed_node lines \<Longrightarrow> isl (load_nodes lines)"
    unfolding load_nodes_def by (rule load_nodes_loop_bad)
  have a: "list_ex (\<lambda>l. length (fields l) < 3) lines \<Longrightarrow> \<not> list_all well_formed_node lines"
    unfolding list_ex_iff list_all_iff well_formed_node_def by fastforce
  have b: "list_ex (\<lambda>l. isl (py_int (strip (fields l ! 0)))) lines \<Longrightarrow>
      \<not> list_all well_formed_node lines"
    unfolding list_ex_iff list_all_iff well_formed_node_def by fastforce
  have c: "list_ex (\<lambda>l. 1 < length (fields l) \<and> isl (py_int (strip (fields l ! 1)))) lines \<Longrightarrow>
      \<not> list_all well_formed_node lines"
    unfolding list_ex_iff list_all_iff well_formed_node_def by fastforce
  show ?thesis using a b c bad load_nodes_wf by blast
qed

theorem load_nodes_spec_witness:
  "isl (load_nodes [''7'' @ field_sep @ ''1'']) \<and>
   isl (load_nodes [''x7'' @ field_sep @ ''1'' @ field_sep @ ''species'']) \<and>
   isl (load_nodes [''7'' @ field_sep @ ''1.0'' @ field_sep @ ''species'']) \<and>
   load_nodes node_lines_ok =
     Inr ([7 \<mapsto> 1, 8 \<mapsto> 1], [7 \<mapsto> ''species'', 8 \<mapsto> ''genus''], [1 \<mapsto> [7, 8]]) \<and>
   spec_children node_lines_ok 1 = Some [7, 8]"
  using load_nodes_spec[of "[''7'' @ field_sep @ ''1'']"]
    load_nodes_spec[of "[''x7'' @ field_sep @ ''1'' @ field_sep @ ''species'']"]
    load_nodes_spec[of "[''7'' @ field_sep @ ''1.0'' @ field_sep @ ''species'']"]
    load_nodes_spec[of node_lines_ok]
    short_line bad_id_line bad_parent_line node_lines_ok_wf load_node_lines_ok
  by (auto simp: fun_eq_iff split: if_splits)

lemma load_name_lines_ok: "load_names name_lines_ok = Inr [7 \<mapsto> ''Panthera leo'']"
  by (simp add: name_lines_ok_def load_eval)

text \<open>
  Claim C9: when \<^verbatim>\<open>load_names\<close> returns, its mapping has an entry for identifier \<open>i\<close> exactly
  when some line is a scientific-name line for \<open>i\<close>, and the name mapped is that of the last
  such line in file order.
\<close>

theorem load_names_spec:
  assumes "load_names lines = Inr names_dict"
  shows "(names_dict i \<noteq> None \<longleftrightarrow> list_ex (\<lambda>l. is_sci l i) lines) \<and>
         (names_dict i = Some n \<longleftrightarrow> last_sci lines i n)"
proof -
  have a: "\<And>n. (names_dict i = Some n) = last_sci lines i n"
    using assms unfolding load_names_def by (rule load_names_loop_spec)
  have "(names_dict i \<noteq> None) = (\<exists>n. last_sci lines i n)" using a by auto
  then show ?thesis using a by (simp add: last_sci_ex)
qed

theorem load_names_spec_witness:
  "load_names name_lines_ok = Inr [7 \<mapsto> ''Panthera leo''] \<and>
   last_sci name_lines_ok 7 ''Panthera leo'' \<and>
   \<not> list_ex (\<lambda>l. is_sci l 8) name_lines_ok"
  using load_names_spec[OF load_name_lines_ok, of 7 "''Panthera leo''"]
    load_names_spec[OF load_name_lines_ok, of 8 "''x''"] load_name_lines_ok
  by simp

section \<open>The pipeline: the species loop and the sorted lists\<close>

lemma is_valid_confirmed: "is_valid_species_name name = Inr (confirmed name)"
  unfolding confirmed_def is_valid_species_name_def valid_with_eq by auto

lemma species_loop_eq:
  "species_loop rd nd ids (a, v) =
     Inr (a @ species_names rd nd ids, v @ filter confirmed (species_names rd nd ids))"
  by (induction ids arbitrary: a v) (simp_all add: species_names_def is_valid_confirmed Let_def)

lemma dom_spec_children: "dom (spec_children lines) \<subseteq> node_parent ` set lines"
proof
  fix p assume "p \<in> dom (spec_children lines)"
  then have "filter (\<lambda>l. node_parent l = p) lines \<noteq> []"
    by (auto simp: spec_children_def Let_def split: if_splits)
  then obtain l where "l \<in> set lines" "node_parent l = p"
    by (auto simp: filter_empty_conv)
  then show "p \<in> node_parent ` set lines" by auto
qed

lemma load_nodes_finite:
  assumes "load_nodes lines = Inr (pd, rd, cd)"
  shows "finite (dom cd)"
proof -
  have "list_all well_formed_node lines"
    using assms load_nodes_loop_bad[of lines "(Map.empty, Map.empty, Map.empty)"]
    by (auto simp: load_nodes_def)
  then have "cd = spec_children lines" using assms by (simp add: load_nodes_wf)
  moreover have "finite (node_parent ` set lines)" by simp
  ultimately show ?thesis using dom_spec_children[of lines] by (simp add: finite_subset)
qed

lemma descendants_finite:
  assumes "finite (dom cd)" and "get_all_descendants r cd = Some S"
  shows "finite S"
proof -
  from get_all_descendants_total[OF assms(1), of r] assms(2)
  have "S = (edges cd)\<^sup>+ `` {r}" by auto
  moreover have "(edges cd)\<^sup>+ `` {r} \<subseteq> Relation.Range (edges cd)"
    by (auto simp: Range_iff dest: tranclD2)
  ultimately show ?thesis using finite_Range_edges[OF assms(1)] by (auto intro: finite_subset)
qed

lemma mset_species_names:
  "mset ids1 = mset ids2 \<Longrightarrow> mset (species_names rd nd ids1) = mset (species_names rd nd ids2)"
proof -
  assume "mset ids1 = mset ids2"
  then have "filter_mset (\<lambda>i. rd i = Some ''species'') (mset ids1) =
      filter_mset (\<lambda>i. rd i = Some ''species'') (mset ids2)"
    by simp
  then have "mset (filter (\<lambda>i. rd i = Some ''species'') ids1) =
      mset (filter (\<lambda>i. rd i = Some ''species'') ids2)"
    by (simp only: mset_filter)
  then have "image_mset (name_or_unknown nd) (mset (filter (\<lambda>i. rd i = Some ''species'') ids1)) =
      image_mset (name_or_unknown nd) (mset (filter (\<lambda>i. rd i = Some ''species'') ids2))"
    by simp
  then show ?thesis unfolding species_names_def by (simp only: mset_map)
qed

lemma sort_mset_eq: "mset xs = mset ys \<Longrightarrow> sort xs = sort (ys :: string list)"
  by (metis sorted_list_of_multiset_mset)

lemma iteration_order_mset:
  assumes "iteration_order o1" and "iteration_order o2" and "finite S"
  shows "mset (o1 S) = mset (o2 S)"
  using assms unfolding iteration_order_def
  by (metis set_eq_iff_mset_eq_distinct)

lemma main_eq:
  assumes "load_nodes nodes = Inr (pd, rd, cd)" and "load_names names = Inr nd"
  shows "\<exists>S. get_all_descendants MAMMALIA_TAX_ID cd = Some S \<and> finite S \<and>
           main order nodes names =
             Some (Inr (sort (species_names rd nd (order S)),
                        sort (filter confirmed (species_names rd nd (order S)))))"
proof -
  have fin: "finite (dom cd)" using assms(1) by (rule load_nodes_finite)
  from get_all_descendants_total[OF fin, of MAMMALIA_TAX_ID] obtain S where
    S: "get_all_descendants MAMMALIA_TAX_ID cd = Some S" by blast
  have "finite S" using fin S by (rule descendants_finite)
  moreover have "main order nodes names =
      Some (Inr (sort (species_names rd nd (order S)),
                 sort (filter confirmed (species_names rd nd (order S)))))"
    by (simp add: main_def assms S species_loop_eq)
  ultimately show ?thesis using S by blast
qed

lemma main_order_independent:
  assumes "iteration_order o1" and "iteration_order o2"
  shows "main o1 nodes names = main o2 nodes names"
proof (cases "load_nodes nodes")
  case (Inl e)
  then show ?thesis by (simp add: main_def)
next
  case (Inr dicts)
  obtain pd rd cd where dicts: "dicts = (pd, rd, cd)" by (cases dicts)
  show ?thesis
  proof (cases "load_names names")
    case (Inl e)
    then show ?thesis using Inr by (simp add: main_def dicts)
  next
    case nd: (Inr nd)
    have ln: "load_nodes nodes = Inr (pd, rd, cd)" using Inr dicts by simp
    from main_eq[OF ln nd, of o1] obtain S where
      S: "get_all_descendants MAMMALIA_TAX_ID cd = Some S" and fin: "finite S"
      and m1: "main o1 nodes names =
        Some (Inr (sort (species_names rd nd (o1 S)),
                   sort (filter confirmed (species_names rd nd (o1 S)))))"
      by blast
    from main_eq[OF ln nd, of o2] obtain S' where
      S': "get_all_descendants MAMMALIA_TAX_ID cd = Some S'"
      and m2': "main o2 nodes names =
        Some (Inr (sort (species_names rd nd (o2 S')),
                   sort (filter confirmed (species_names rd nd (o2 S')))))"
      by blast
    have "S' = S" using S S' by simp
    then have m2: "main o2 nodes names =
        Some (Inr (sort (species_names rd nd (o2 S)),
                   sort (filter confirmed (species_names rd nd (o2 S)))))"
      using m2' by simp
    have "mset (o1 S) = mset (o2 S)" using assms fin by (rule iteration_order_mset)
    then have a: "mset (species_names rd nd (o1 S)) = mset (species_names rd nd (o2 S))"
      by (rule mset_species_names)
    then have "filter_mset confirmed (mset (species_names rd nd (o1 S))) =
        filter_mset confirmed (mset (species_names rd nd (o2 S)))"
      by simp
    then have b: "mset (filter confirmed (species_names rd nd (o1 S))) =
        mset (filter confirmed (species_names rd nd (o2 S)))"
      by (simp only: mset_filter)
    show ?thesis unfolding m1 m2 sort_mset_eq[OF a] sort_mset_eq[OF b] ..
  qed
qed

lemma count_image_mset_set:
  "finite T \<Longrightarrow> count (image_mset f (mset_set T)) n = card {i \<in> T. f i = n}"
proof (induction T rule: finite_induct)
  case empty
  then show ?case by simp
next
  case (insert x T)
  have "{i \<in> insert x T. f i = n} = (if f x = n then insert x {i \<in> T. f i = n} else {i \<in> T. f i = n})"
    by auto
  then show ?case using insert by simp
qed

lemma count_species_names:
  assumes "finite S" and "set ids = S" and "distinct ids"
  shows "count (mset (species_names rd nd ids)) n =
           card {i \<in> S. rd i = Some ''species'' \<and> name_or_unknown nd i = n}"
proof -
  let ?T = "{i \<in> S. rd i = Some ''species''}"
  have "mset ids = mset_set S" using assms(2,3) by (metis mset_set_set)
  then have "filter_mset (\<lambda>i. rd i = Some ''species'') (mset ids) = mset_set ?T"
    using assms(1) by (simp add: filter_mset_mset_set)
  then have "mset (filter (\<lambda>i. rd i = Some ''species'') ids) = mset_set ?T"
    by (simp only: mset_filter)
  then have "image_mset (name_or_unknown nd) (mset (filter (\<lambda>i. rd i = Some ''species'') ids)) =
      image_mset (name_or_unknown nd) (mset_set ?T)"
    by (rule arg_cong)
  then have "mset (species_names rd nd ids) = image_mset (name_or_unknown nd) (mset_set ?T)"
    unfolding species_names_def by (simp only: mset_map)
  moreover have "finite ?T" using assms(1) by simp
  moreover have "{i \<in> ?T. name_or_unknown nd i = n} =
      {i \<in> S. rd i = Some ''species'' \<and> name_or_unknown nd i = n}"
    by auto
  ultimately show ?thesis by (simp add: count_image_mset_set)
qed

lemma main_result:
  assumes ord: "iteration_order order"
    and run: "main order nodes names = Some (Inr (all_species, valid_species))"
  shows "sorted valid_species \<and>
         mset valid_species = filter_mset confirmed (mset all_species) \<and>
         (\<exists>pd rd cd nd S. load_nodes nodes = Inr (pd, rd, cd) \<and> load_names names = Inr nd \<and>
            get_all_descendants MAMMALIA_TAX_ID cd = Some S \<and>
            (\<forall>n. count (mset all_species) n =
               card {i \<in> S. rd i = Some ''species'' \<and> name_or_unknown nd i = n}))"
proof -
  from run obtain pd rd cd where ln: "load_nodes nodes = Inr (pd, rd, cd)"
    by (auto simp: main_def split: sum.splits)
  from run ln obtain nd where nn: "load_names names = Inr nd"
    by (auto simp: main_def split: sum.splits)
  from main_eq[OF ln nn, of order] obtain S where
    S: "get_all_descendants MAMMALIA_TAX_ID cd = Some S" and fin: "finite S"
    and m: "main order nodes names =
      Some (Inr (sort (species_names rd nd (order S)),
                 sort (filter confirmed (species_names rd nd (order S)))))"
    by blast
  have a: "all_species = sort (species_names rd nd (order S))"
    and v: "valid_species = sort (filter confirmed (species_names rd nd (order S)))"
    using run m by simp_all
  have os: "set (order S) = S" "distinct (order S)"
    using ord fin unfolding iteration_order_def by auto
  have "\<And>n. count (mset all_species) n =
      card {i \<in> S. rd i = Some ''species'' \<and> name_or_unknown nd i = n}"
    unfolding a using count_species_names[OF fin os] by simp
  moreover have "mset valid_species = filter_mset confirmed (mset all_species)"
    unfolding a v by simp
  moreover have "sorted valid_species" unfolding v by simp
  ultimately show ?thesis using ln nn S by blast
qed

lemma valid_homo_sapiens: "is_valid_species_name ''Homo sapiens'' = Inr True"
  by (simp add: name_eval del: matches.simps(6))

lemma valid_homo_sp: "is_valid_species_name ''Homo sp.'' = Inr False"
  by (simp add: name_eval del: matches.simps(6))

lemma load_mammal_nodes:
  "load_nodes mammal_nodes =
     Inr ([40674 \<mapsto> 32524, 9689 \<mapsto> 40674, 9606 \<mapsto> 40674],
          [40674 \<mapsto> ''class'', 9689 \<mapsto> ''species'', 9606 \<mapsto> ''species''],
          [32524 \<mapsto> [40674], 40674 \<mapsto> [9689, 9606]])"
  by (simp add: mammal_nodes_def load_eval children_of_def)

lemma load_mammal_names:
  "load_names mammal_names = Inr [9689 \<mapsto> ''Panthera leo'', 9606 \<mapsto> ''Homo sapiens'']"
  by (simp add: mammal_names_def load_eval)

lemma load_mammal_names_sp:
  "load_names mammal_names_sp = Inr [9689 \<mapsto> ''Panthera leo'', 9606 \<mapsto> ''Homo sp.'']"
  by (simp add: mammal_names_sp_def load_eval)

lemma mammal_descendants:
  "get_all_descendants MAMMALIA_TAX_ID [32524 \<mapsto> [40674], 40674 \<mapsto> [9689, 9606]] =
     Some {9689, 9606}"
  by (simp add: MAMMALIA_TAX_ID_def get_all_descendants_def bfs_loop.simps insert_commute)

lemma sorted_list_mammals: "sorted_list_of_set {9689, 9606 :: int} = [9606, 9689]"
proof -
  have "sorted_list_of_set (set [9689, 9606 :: int]) = sort (remdups [9689, 9606])"
    by (rule sorted_list_of_set_sort_remdups)
  then show ?thesis by simp
qed

lemma main_mammals:
  "main sorted_list_of_set mammal_nodes mammal_names =
     Some (Inr ([''Homo sapiens'', ''Panthera leo''], [''Homo sapiens'', ''Panthera leo'']))"
  by (simp add: main_def load_mammal_nodes load_mammal_names mammal_descendants
      sorted_list_mammals name_or_unknown_def valid_homo_sapiens valid_panthera_leo Let_def)

lemma main_mammals_sp:
  "main sorted_list_of_set mammal_nodes mammal_names_sp =
     Some (Inr ([''Homo sp.'', ''Panthera leo''], [''Panthera leo'']))"
  by (simp add: main_def load_mammal_nodes load_mammal_names_sp mammal_descendants
      sorted_list_mammals name_or_unknown_def valid_homo_sp valid_panthera_leo Let_def)

lemma iteration_order_sorted: "iteration_order sorted_list_of_set"
  by (simp add: iteration_order_def)

lemma iteration_order_rev: "iteration_order (\<lambda>S. rev (sorted_list_of_set S))"
  by (simp add: iteration_order_def)

section \<open>Claims about the pipeline\<close>

text \<open>
  Claim C6, as the specification states it: the confirmed names written are a strict subset
  of the names of all species, sorted, with no duplicates removed. On the taxonomy of two
  species whose names are both confirmed, the confirmed names are all the species names:
  not a strict subset, neither as sets nor as multisets.
\<close>

theorem output_strict_subset_counterexample:
  "main sorted_list_of_set mammal_nodes mammal_names =
     Some (Inr ([''Homo sapiens'', ''Panthera leo''], [''Homo sapiens'', ''Panthera leo''])) \<and>
   \<not> mset [''Homo sapiens'', ''Panthera leo''] \<subset># mset [''Homo sapiens'', ''Panthera leo''] \<and>
   \<not> set [''Homo sapiens'', ''Panthera leo''] \<subset> set [''Homo sapiens'', ''Panthera leo'']"
  using main_mammals by simp

text \<open>
  Claim C6, amended: the confirmed names written are sorted ascending and are, with their
  multiplicities, the confirmed ones among the names of all species, so a sub-multiset of
  them (the whole of them when every name is confirmed); the name of all species occurs once
  for each descendant of rank \<^verbatim>\<open>"species"\<close> that bears it.
\<close>

theorem output_names_spec:
  assumes "iteration_order order"
    and "main order nodes_lines names_lines = Some (Inr (all_species, valid_species))"
  shows "sorted valid_species \<and> mset valid_species \<subseteq># mset all_species \<and>
         mset valid_species = filter_mset confirmed (mset all_species) \<and>
         (\<exists>parent_dict rank_dict children_dict names_dict descendants.
            load_nodes nodes_lines = Inr (parent_dict, rank_dict, children_dict) \<and>
            load_names names_lines = Inr names_dict \<and>
            get_all_descendants MAMMALIA_TAX_ID children_dict = Some descendants \<and>
            (\<forall>n. count (mset all_species) n =
               card {i \<in> descendants. rank_dict i = Some ''species'' \<and>
                       name_or_unknown names_dict i = n}))"
proof -
  note r = main_result[OF assms]
  from r have "mset valid_species = filter_mset confirmed (mset all_species)" by blast
  then have "mset valid_species \<subseteq># mset all_species" by simp
  with r show ?thesis by blast
qed

theorem output_names_spec_witness:
  "iteration_order sorted_list_of_set \<and>
   main sorted_list_of_set mammal_nodes mammal_names_sp =
     Some (Inr ([''Homo sp.'', ''Panthera leo''], [''Panthera leo''])) \<and>
   sorted [''Panthera leo''] \<and>
   mset [''Panthera leo''] \<subseteq># mset [''Homo sp.'', ''Panthera leo'']"
  using output_names_spec[OF iteration_order_sorted main_mammals_sp]
    iteration_order_sorted main_mammals_sp
  by simp

text \<open>
  Claim C7: the result of the pipeline, and with it the text of the output file, does not
  depend on the order in which the set of descendants is iterated: two runs on the same
  lines write the same file.
\<close>

theorem main_deterministic:
  assumes "iteration_order order1" and "iteration_order order2"
  shows "main order1 nodes_lines names_lines = main order2 nodes_lines names_lines \<and>
         output_file order1 nodes_lines names_lines = output_file order2 nodes_lines names_lines"
  using main_order_independent[OF assms] by (simp add: output_file_def)

theorem main_deterministic_witness:
  "iteration_order sorted_list_of_set \<and> iteration_order (\<lambda>S. rev (sorted_list_of_set S)) \<and>
   output_file sorted_list_of_set mammal_nodes mammal_names =
     Some (Inr (''Homo sapiens'' @ [CHR 0x0A] @ ''Panthera leo'' @ [CHR 0x0A])) \<and>
   output_file (\<lambda>S. rev (sorted_list_of_set S)) mammal_nodes mammal_names =
     Some (Inr (''Homo sapiens'' @ [CHR 0x0A] @ ''Panthera leo'' @ [CHR 0x0A]))"
proof -
  have a: "output_file sorted_list_of_set mammal_nodes mammal_names =
      Some (Inr (''Homo sapiens'' @ [CHR 0x0A] @ ''Panthera leo'' @ [CHR 0x0A]))"
    by (simp add: output_file_def main_mammals file_text_def)
  show ?thesis
    using main_deterministic[OF iteration_order_sorted iteration_order_rev,
        of mammal_nodes mammal_names] a iteration_order_sorted iteration_order_rev
    by simp
qed

end
